theory Spec2Isabelle
  imports Main "HOL-Library.Sublist"
begin

section \<open>Go strings: bytes, runes and the library functions the parser calls\<close>

text \<open>
  A Go \<^verbatim>\<open>string\<close> is a sequence of bytes, so it is modelled as \<^typ>\<open>string\<close>
  (a list of 8-bit characters). A \<^verbatim>\<open>rune\<close> is a code point, modelled as a natural
  number. The literal \<^verbatim>\<open>"\<dots>"\<close> of a non-ASCII letter is its UTF-8 encoding: the letter
  u-umlaut (U+00FC) is the two bytes C3 BC.
\<close>

type_synonym rune = nat

definition RuneError :: rune where
  "RuneError = 0xFFFD"

definition u_uml :: string where
  "u_uml = [CHR 0xC3, CHR 0xBC]"

text \<open>
  \<^verbatim>\<open>utf8.DecodeRuneInString\<close>: the first rune of a string and its width in bytes. An
  invalid or incomplete encoding gives \<^verbatim>\<open>(RuneError, 1)\<close>; the empty string gives
  \<^verbatim>\<open>(RuneError, 0)\<close>. The accepted range of the second byte depends on the first
  (no overlong forms, no surrogates, nothing above U+10FFFF).
\<close>

fun DecodeRuneInString :: "string \<Rightarrow> rune \<times> nat" where
  "DecodeRuneInString [] = (RuneError, 0)"
| "DecodeRuneInString (c0 # s) =
     (let s0 = (of_char c0 :: nat) in
      if s0 < 0x80 then (s0, 1)
      else if s0 < 0xC2 \<or> 0xF4 < s0 then (RuneError, 1)
      else
        let sz = (if s0 < 0xE0 then 2 else if s0 < 0xF0 then 3 else 4 :: nat);
            lo = (if s0 = 0xE0 then 0xA0 else if s0 = 0xF0 then 0x90 else 0x80 :: nat);
            hi = (if s0 = 0xED then 0x9F else if s0 = 0xF4 then 0x8F else 0xBF :: nat)
        in
        if length (c0 # s) < sz then (RuneError, 1)
        else
          let s1 = (of_char (s ! 0) :: nat) in
          if s1 < lo \<or> hi < s1 then (RuneError, 1)
          else if sz \<le> 2 then ((s0 mod 32) * 64 + s1 mod 64, 2)
          else
            let s2 = (of_char (s ! 1) :: nat) in
            if s2 < 0x80 \<or> 0xBF < s2 then (RuneError, 1)
            else if sz \<le> 3 then ((s0 mod 16) * 4096 + (s1 mod 64) * 64 + s2 mod 64, 3)
            else
              let s3 = (of_char (s ! 2) :: nat) in
              if s3 < 0x80 \<or> 0xBF < s3 then (RuneError, 1)
              else ((s0 mod 8) * 262144 + (s1 mod 64) * 4096 + (s2 mod 64) * 64 + s3 mod 64, 4))"

text \<open>\<^verbatim>\<open>for _, r := range s\<close>: the runes of a string, left to right.\<close>

function runes :: "string \<Rightarrow> rune list" where
  "runes [] = []"
| "runes (c # s) =
     fst (DecodeRuneInString (c # s)) # runes (drop (snd (DecodeRuneInString (c # s))) (c # s))"
  by pat_completeness auto
termination
proof (relation "measure length")
  show "wf (measure length)" by simp
next
  fix c :: char and s :: string
  have "1 \<le> snd (DecodeRuneInString (c # s))"
    by (simp add: Let_def)
  then show "(drop (snd (DecodeRuneInString (c # s))) (c # s), c # s) \<in> measure length"
    by simp
qed

text \<open>
  \<^verbatim>\<open>utf8.AppendRune\<close>, which \<^verbatim>\<open>strings.Builder.WriteRune\<close> calls: the UTF-8 encoding
  of a rune; a surrogate or a value above U+10FFFF is written as \<^verbatim>\<open>RuneError\<close>.
\<close>

definition EncodeRune :: "rune \<Rightarrow> string" where
  "EncodeRune r =
     (if r \<le> 0x7F then [char_of r]
      else if r \<le> 0x7FF then [char_of (0xC0 + r div 64), char_of (0x80 + r mod 64)]
      else if 0x10FFFF < r \<or> (0xD800 \<le> r \<and> r \<le> 0xDFFF) then [CHR 0xEF, CHR 0xBF, CHR 0xBD]
      else if r \<le> 0xFFFF then
        [char_of (0xE0 + r div 4096), char_of (0x80 + (r div 64) mod 64), char_of (0x80 + r mod 64)]
      else
        [char_of (0xF0 + r div 262144), char_of (0x80 + (r div 4096) mod 64),
         char_of (0x80 + (r div 64) mod 64), char_of (0x80 + r mod 64)])"

definition WriteRune :: "string \<Rightarrow> rune \<Rightarrow> string" where
  "WriteRune b r = b @ EncodeRune r"

text \<open>
  \<^verbatim>\<open>unicode.ToLower\<close>. The ASCII branch is the library's own; above ASCII the library
  looks the rune up in its case table. The Latin-1 rows of that table are written out
  (U+00C0..U+00D6 and U+00D8..U+00DE move down by 32, every other rune of the block is
  its own lower case); the rest of the table is not part of this repository and is the
  parameter \<open>tbl\<close>.
\<close>

definition unicode_ToLower :: "(rune \<Rightarrow> rune) \<Rightarrow> rune \<Rightarrow> rune" where
  "unicode_ToLower tbl r =
     (if r \<le> 0x7F then (if 0x41 \<le> r \<and> r \<le> 0x5A then r + 32 else r)
      else if r \<le> 0xFF then
        (if (0xC0 \<le> r \<and> r \<le> 0xD6) \<or> (0xD8 \<le> r \<and> r \<le> 0xDE) then r + 32 else r)
      else tbl r)"

text \<open>
  \<^verbatim>\<open>strings.ToLower\<close>: every rune mapped through \<^verbatim>\<open>unicode.ToLower\<close> and written back
  (an invalid byte comes back as the encoding of \<^verbatim>\<open>RuneError\<close>).
\<close>

definition strings_ToLower :: "(rune \<Rightarrow> rune) \<Rightarrow> string \<Rightarrow> string" where
  "strings_ToLower tbl s = concat (map (\<lambda>r. EncodeRune (unicode_ToLower tbl r)) (runes s))"

definition HasPrefix :: "string \<Rightarrow> string \<Rightarrow> bool" where
  "HasPrefix s p = (length p \<le> length s \<and> take (length p) s = p)"

definition TrimPrefix :: "string \<Rightarrow> string \<Rightarrow> string" where
  "TrimPrefix s p = (if HasPrefix s p then drop (length p) s else s)"

definition HasSuffix :: "string \<Rightarrow> string \<Rightarrow> bool" where
  "HasSuffix s x = (length x \<le> length s \<and> drop (length s - length x) s = x)"

text \<open>\<^verbatim>\<open>strings.ContainsRune\<close>: whether the rune occurs among the runes of the string.\<close>

definition ContainsRune :: "string \<Rightarrow> rune \<Rightarrow> bool" where
  "ContainsRune s r = (r \<in> set (runes s))"

text \<open>
  \<^verbatim>\<open>strings.ReplaceAll(s, old, new)\<close> for a non-empty \<open>old\<close>: the non-overlapping
  occurrences of \<open>old\<close>, found left to right, are replaced by \<open>new\<close>. (With an empty
  \<open>old\<close> the library inserts \<open>new\<close> around every rune; the program never calls it so,
  and the model leaves the string as it is.)
\<close>

function ReplaceAll :: "string \<Rightarrow> string \<Rightarrow> string \<Rightarrow> string" where
  "ReplaceAll [] old new = []"
| "ReplaceAll (c # s) old new =
     (if old \<noteq> [] \<and> HasPrefix (c # s) old
      then new @ ReplaceAll (drop (length old) (c # s)) old new
      else c # ReplaceAll s old new)"
  by pat_completeness auto
termination
  by (relation "measure (\<lambda>(s, old, new). length s)") auto

section \<open>Package hmm: tones\<close>

type_synonym Tone = int

definition Tone1 :: Tone where "Tone1 = 1"
definition Tone2 :: Tone where "Tone2 = 2"
definition Tone3 :: Tone where "Tone3 = 3"
definition Tone4 :: Tone where "Tone4 = 4"
definition Tone5 :: Tone where "Tone5 = 5"
definition ToneUnknown :: Tone where "ToneUnknown = 0"

section \<open>Package pinyin: the parser\<close>

record ParsedPinyin =
  Full :: string
  Initial :: string
  Final :: string
  Tone :: Tone

text \<open>
  The table \<^verbatim>\<open>toneMarks\<close> of \<^verbatim>\<open>extractTone\<close>: each accented vowel (by code point) with
  its base vowel and tone, in the order of the source.
\<close>

definition toneMarks_list :: "(rune \<times> rune \<times> Tone) list" where
  "toneMarks_list =
     [(0x101, 0x61, Tone1), (0xE1, 0x61, Tone2), (0x1CE, 0x61, Tone3), (0xE0, 0x61, Tone4),
      (0x113, 0x65, Tone1), (0xE9, 0x65, Tone2), (0x11B, 0x65, Tone3), (0xE8, 0x65, Tone4),
      (0x12B, 0x69, Tone1), (0xED, 0x69, Tone2), (0x1D0, 0x69, Tone3), (0xEC, 0x69, Tone4),
      (0x14D, 0x6F, Tone1), (0xF3, 0x6F, Tone2), (0x1D2, 0x6F, Tone3), (0xF2, 0x6F, Tone4),
      (0x16B, 0x75, Tone1), (0xFA, 0x75, Tone2), (0x1D4, 0x75, Tone3), (0xF9, 0x75, Tone4),
      (0x1D6, 0xFC, Tone1), (0x1D8, 0xFC, Tone2), (0x1DA, 0xFC, Tone3), (0x1DC, 0xFC, Tone4)]"

definition toneMarks :: "rune \<rightharpoonup> rune \<times> Tone" where
  "toneMarks = map_of toneMarks_list"

text \<open>The loop of \<^verbatim>\<open>extractTone\<close>; the state is the tone so far and the builder.\<close>

fun extractTone_loop :: "rune list \<Rightarrow> Tone \<Rightarrow> string \<Rightarrow> Tone \<times> string" where
  "extractTone_loop [] tone result = (tone, result)"
| "extractTone_loop (r # rs) tone result =
     (case toneMarks r of
        Some (base, t) \<Rightarrow> extractTone_loop rs t (WriteRune result base)
      | None \<Rightarrow> extractTone_loop rs tone (WriteRune result r))"

definition extractTone :: "string \<Rightarrow> Tone \<times> string" where
  "extractTone pinyin =
     (case extractTone_loop (runes pinyin) ToneUnknown [] of
        (tone, result) \<Rightarrow> (if tone = ToneUnknown then Tone5 else tone, result))"

definition hmmFinals :: "string list" where
  "hmmFinals =
     [''ong'', ''ang'', ''eng'', ''ing'',
      ''ai'', ''ei'', ''ao'', ''ou'', ''an'', ''en'',
      ''a'', ''o'', ''e'']"

definition matchFinal :: "string \<Rightarrow> string list \<Rightarrow> string" where
  "matchFinal rest finals =
     (case find (\<lambda>f. rest = f) finals of
        Some f \<Rightarrow> f
      | None \<Rightarrow>
          if HasSuffix rest ''ing'' then ''eng''
          else if rest = ''in'' \<or> HasSuffix rest ''in'' then ''en''
          else if rest = ''un'' \<or> HasSuffix rest ''un'' then ''en''
          else if rest = ''iong'' \<or> HasSuffix rest ''iong'' then ''ong''
          else if rest = ''n'' then ''en''
          else if rest = ''ng'' then ''eng''
          else if rest = '''' \<or> rest = ''i'' \<or> rest = ''u'' \<or> rest = u_uml then ''''
          else rest)"

definition isConsonant :: "(rune \<Rightarrow> rune) \<Rightarrow> rune \<Rightarrow> bool" where
  "isConsonant tbl r = ContainsRune ''bpmfdtnlgkhjqxzhchshrzcs'' (unicode_ToLower tbl r)"

definition fakeI :: "string \<rightharpoonup> bool" where
  "fakeI = map_of [(''zh'', True), (''ch'', True), (''sh'', True), (''r'', True),
                   (''z'', True), (''c'', True), (''s'', True)]"

text \<open>Reading a Go \<^verbatim>\<open>map[string]bool\<close>: a missing key reads as \<^verbatim>\<open>false\<close>.\<close>

definition lookup_bool :: "(string \<rightharpoonup> bool) \<Rightarrow> string \<Rightarrow> bool" where
  "lookup_bool m k = (case m k of Some b \<Rightarrow> b | None \<Rightarrow> False)"

text \<open>
  \<^verbatim>\<open>extractWithInitial\<close>. The source tests \<^verbatim>\<open>u\<close> and then \<^verbatim>\<open>i\<close> inside one block for
  the consonants j, q, x and falls out of the block when neither matches; here the two
  tests are two branches of the chain, each under the condition of the block.
\<close>

definition extractWithInitial :: "string \<Rightarrow> string \<Rightarrow> string list \<Rightarrow> string \<times> string" where
  "extractWithInitial consonant rest finals =
     (if length rest = 0 then (consonant, '''')
      else if (consonant = ''j'' \<or> consonant = ''q'' \<or> consonant = ''x'') \<and> HasPrefix rest ''u'' then
        (if rest = ''u'' then (consonant @ ''u'', '''')
         else (consonant @ ''u'', matchFinal (TrimPrefix rest ''u'') finals))
      else if (consonant = ''j'' \<or> consonant = ''q'' \<or> consonant = ''x'') \<and> HasPrefix rest ''i'' then
        (if rest = ''i'' then (consonant @ ''i'', '''')
         else (consonant @ ''i'', matchFinal (TrimPrefix rest ''i'') finals))
      else if HasPrefix rest u_uml \<or> HasPrefix rest ''v'' then
        (if rest = u_uml \<or> rest = ''v'' then (consonant @ u_uml, '''')
         else (consonant @ u_uml, matchFinal (TrimPrefix (TrimPrefix rest u_uml) ''v'') finals))
      else if HasPrefix rest ''i'' \<and> \<not> lookup_bool fakeI consonant then
        (if rest = ''i'' then (consonant @ ''i'', '''')
         else (consonant @ ''i'', matchFinal (TrimPrefix rest ''i'') finals))
      else if HasPrefix rest ''u'' \<and> consonant \<noteq> ''j'' \<and> consonant \<noteq> ''q'' \<and> consonant \<noteq> ''x'' then
        (if rest = ''u'' then (consonant @ ''u'', '''')
         else (consonant @ ''u'', matchFinal (TrimPrefix rest ''u'') finals))
      else (consonant, matchFinal rest finals))"

definition consonantClusters :: "string list" where
  "consonantClusters = [''zh'', ''ch'', ''sh'']"

text \<open>
  \<^verbatim>\<open>extractInitialFinal\<close>. The loop over \<^verbatim>\<open>consonantClusters\<close> returns at the first
  cluster that is a prefix, which is \<^const>\<open>find\<close>; \<^verbatim>\<open>pinyin[0]\<close> and \<^verbatim>\<open>pinyin[1:]\<close>
  are read under \<^verbatim>\<open>len(pinyin) > 0\<close>, which is the pattern \<open>c # rest\<close>, and
  \<^verbatim>\<open>string(pinyin[0])\<close> is the encoding of the byte taken as a code point.
\<close>

definition extractInitialFinal :: "(rune \<Rightarrow> rune) \<Rightarrow> string \<Rightarrow> string \<times> string" where
  "extractInitialFinal tbl pinyin0 =
     (let pinyin = strings_ToLower tbl pinyin0 in
      if HasPrefix pinyin ''y'' then
        (if pinyin = ''yi'' \<or> pinyin = ''y'' then (''y'', '''')
         else
           let rest = TrimPrefix pinyin ''y'';
               rest = (if HasPrefix rest ''i'' then TrimPrefix rest ''i'' else rest)
           in (''y'', matchFinal rest hmmFinals))
      else if HasPrefix pinyin ''w'' then
        (if pinyin = ''wu'' \<or> pinyin = ''w'' then (''w'', '''')
         else
           let rest = TrimPrefix pinyin ''w'';
               rest = (if HasPrefix rest ''u'' then TrimPrefix rest ''u'' else rest)
           in (''w'', matchFinal rest hmmFinals))
      else if HasPrefix pinyin ''yu'' then
        (if pinyin = ''yu'' then (''yu'', '''')
         else (''yu'', matchFinal (TrimPrefix pinyin ''yu'') hmmFinals))
      else
        case find (\<lambda>cc. HasPrefix pinyin cc) consonantClusters of
          Some cc \<Rightarrow> extractWithInitial cc (TrimPrefix pinyin cc) hmmFinals
        | None \<Rightarrow>
            (case pinyin of
               c # rest \<Rightarrow>
                 if isConsonant tbl (of_char c)
                 then extractWithInitial (EncodeRune (of_char c)) rest hmmFinals
                 else ('''', matchFinal pinyin hmmFinals)
             | [] \<Rightarrow> ('''', matchFinal pinyin hmmFinals)))"

definition Parse :: "(rune \<Rightarrow> rune) \<Rightarrow> string \<Rightarrow> ParsedPinyin" where
  "Parse tbl pinyin =
     (case extractTone pinyin of
        (tone, stripped) \<Rightarrow>
          (case extractInitialFinal tbl stripped of
             (initial, final) \<Rightarrow>
               \<lparr>Full = pinyin, Initial = initial, Final = final, Tone = tone\<rparr>))"

definition GetActorID :: "string \<Rightarrow> string" where
  "GetActorID initial = (if initial = '''' then ''null'' else ReplaceAll initial u_uml ''v'')"

definition GetSetID :: "string \<Rightarrow> string" where
  "GetSetID final = (if final = '''' then ''null'' else final)"

section \<open>Reference descriptions used in the statements\<close>

text \<open>
  What the specification says the tone extractor does to one code point: a key of the
  tone-mark table is replaced by its base vowel, any other code point is kept.
\<close>

definition base_of :: "rune \<Rightarrow> rune" where
  "base_of r = (case toneMarks r of Some (base, t) \<Rightarrow> base | None \<Rightarrow> r)"

text \<open>The tones of the tone marks among the code points, in the order they occur.\<close>

definition marks_of :: "rune list \<Rightarrow> Tone list" where
  "marks_of rs = map snd (List.map_filter toneMarks rs)"

text \<open>A continuation byte of UTF-8 (the range \<^verbatim>\<open>locb\<close>..\<^verbatim>\<open>hicb\<close> of the library).\<close>

definition cont :: "char \<Rightarrow> bool" where
  "cont b = (0x80 \<le> (of_char b :: nat) \<and> (of_char b :: nat) \<le> 0xBF)"

text \<open>
  What the specification says the actor identifier does to one code point: u-umlaut
  (U+00FC) becomes the letter v (U+0076), any other code point is kept.
\<close>

definition v_for_u_uml :: "rune \<Rightarrow> rune" where
  "v_for_u_uml r = (if r = 0xFC then 0x76 else r)"

section \<open>The tone extractor\<close>

lemma toneMarks_tone:
  assumes "toneMarks r = Some (b, t)"
  shows "t \<in> {1, 2, 3, 4}"
proof -
  have "(r, (b, t)) \<in> set toneMarks_list"
    using assms unfolding toneMarks_def by (rule map_of_SomeD)
  then have "t \<in> snd ` snd ` set toneMarks_list"
    by force
  also have "snd ` snd ` set toneMarks_list = {1, 2, 3, 4}"
    by (simp add: toneMarks_list_def Tone1_def Tone2_def Tone3_def Tone4_def insert_commute)
  finally show ?thesis .
qed

lemma marks_of_Cons:
  "marks_of (r # rs) = (case toneMarks r of Some (b, t) \<Rightarrow> t # marks_of rs | None \<Rightarrow> marks_of rs)"
  by (simp add: marks_of_def List.map_filter_simps split: option.splits)

lemma marks_of_range: "t \<in> set (marks_of rs) \<Longrightarrow> t \<in> {1, 2, 3, 4}"
proof (induction rs)
  case Nil
  then show ?case by (simp add: marks_of_def List.map_filter_simps)
next
  case (Cons r rs)
  show ?case
  proof (cases "toneMarks r")
    case None
    with Cons show ?thesis by (simp add: marks_of_Cons)
  next
    case (Some bt)
    obtain b t' where bt: "bt = (b, t')" by (cases bt)
    from Some bt have "t' \<in> {1, 2, 3, 4}" using toneMarks_tone by blast
    with Cons Some bt show ?thesis by (auto simp: marks_of_Cons)
  qed
qed

text \<open>The loop, started from any tone and any builder contents.\<close>

lemma extractTone_loop_eq:
  "extractTone_loop rs tone result =
     (if marks_of rs = [] then tone else last (marks_of rs),
      result @ concat (map (\<lambda>r. EncodeRune (base_of r)) rs))"
proof (induction rs arbitrary: tone result)
  case Nil
  then show ?case by (simp add: marks_of_def List.map_filter_simps)
next
  case (Cons r rs)
  show ?case
  proof (cases "toneMarks r")
    case None
    then show ?thesis
      by (simp add: Cons.IH marks_of_Cons base_of_def WriteRune_def)
  next
    case (Some bt)
    obtain b t where bt: "bt = (b, t)" by (cases bt)
    with Some show ?thesis
      by (simp add: Cons.IH marks_of_Cons base_of_def WriteRune_def)
  qed
qed

lemma last_mark_range:
  assumes "marks_of rs \<noteq> []"
  shows "last (marks_of rs) \<in> {1, 2, 3, 4}"
proof -
  from assms have "last (marks_of rs) \<in> set (marks_of rs)"
    by simp
  then show ?thesis
    by (rule marks_of_range)
qed

lemma extractTone_range: "fst (extractTone s) \<in> {1, 2, 3, 4, 5}"
proof (cases "marks_of (runes s) = []")
  case True
  then show ?thesis
    by (simp add: extractTone_def extractTone_loop_eq ToneUnknown_def Tone5_def)
next
  case False
  then have "last (marks_of (runes s)) \<in> {1, 2, 3, 4}"
    by (rule last_mark_range)
  with False show ?thesis
    by (auto simp: extractTone_def extractTone_loop_eq ToneUnknown_def Tone5_def)
qed

section \<open>The final matcher and the compound-initial resolver\<close>

lemma finals_ending_in_ing:
  "\<forall>f \<in> set hmmFinals. HasSuffix f ''ing'' \<longrightarrow> f = ''ing''"
  by (simp add: hmmFinals_def HasSuffix_def)

lemma ing_not_final:
  assumes "HasSuffix rest ''ing''" and "rest \<noteq> ''ing''"
  shows "find (\<lambda>f. rest = f) hmmFinals = None"
proof -
  have "rest \<notin> set hmmFinals"
    using assms finals_ending_in_ing by blast
  then show ?thesis
    by (simp add: find_None_iff)
qed

lemma fakeI_members:
  assumes "c \<in> {''zh'', ''ch'', ''sh'', ''r'', ''z'', ''c'', ''s''}"
  shows "lookup_bool fakeI c" and "c \<noteq> ''j''" and "c \<noteq> ''q''" and "c \<noteq> ''x''"
  using assms by (auto simp: lookup_bool_def fakeI_def)

lemma HasPrefix_i:
  "\<not> HasPrefix (CHR ''i'' # r) ''u''" "\<not> HasPrefix (CHR ''i'' # r) ''v''"
  "\<not> HasPrefix (CHR ''i'' # r) u_uml"
  by (simp_all add: HasPrefix_def u_uml_def)

section \<open>The initial classifier\<close>

lemma HasPrefix_yu_y: "HasPrefix p ''yu'' \<Longrightarrow> HasPrefix p ''y''"
  by (cases p) (auto simp: HasPrefix_def)

text \<open>A syllable that starts with \<^verbatim>\<open>yu\<close> is caught by the test for \<^verbatim>\<open>y\<close>.\<close>

lemma yu_prefix_initial:
  assumes "HasPrefix (strings_ToLower tbl p) ''yu''"
  shows "fst (extractInitialFinal tbl p) = ''y''"
proof -
  from assms have "HasPrefix (strings_ToLower tbl p) ''y''"
    by (rule HasPrefix_yu_y)
  then show ?thesis
    by (simp add: extractInitialFinal_def Let_def)
qed

section \<open>Replacing u-umlaut, seen on the code points\<close>

lemma list4_cases:
  obtains "cs = []" | b1 where "cs = [b1]" | b1 b2 where "cs = [b1, b2]"
  | b1 b2 b3 t where "cs = b1 # b2 # b3 # t"
  by (metis list.exhaust)

lemma HasPrefix_u_uml:
  "HasPrefix (c # cs) u_uml \<longleftrightarrow> c = CHR 0xC3 \<and> (\<exists>t. cs = CHR 0xBC # t)"
  by (cases cs) (auto simp: HasPrefix_def u_uml_def)

lemma block_mod:
  fixes a n q k :: nat
  assumes "a = q * n + k" and "k < n"
  shows "a mod n = k"
  using assms by simp

lemma byte_block:
  fixes a lo :: nat
  assumes "lo \<le> a"
  obtains k where "a = lo + k"
  using assms le_iff_add by blast

lemma small_two: "(k::nat) < 32 \<Longrightarrow> (j::nat) < 64 \<Longrightarrow> k * 64 + j = 252 \<Longrightarrow> k = 3 \<and> j = 60"
  by arith

lemma two_byte_FC:
  fixes a b :: nat
  assumes "194 \<le> a" "a < 224" "128 \<le> b" "b \<le> 191" "a mod 32 * 64 + b mod 64 = 252"
  shows "a = 195 \<and> b = 188"
proof -
  obtain k where k: "a = 192 + k" using assms(1) byte_block [of 192 a] by auto
  obtain j where j: "b = 128 + j" using assms(3) byte_block [of 128 b] by auto
  from k assms(2) have k32: "k < 32" by simp
  from j assms(4) have j64: "j < 64" by simp
  have "a mod 32 = k" using block_mod [of a 6 32 k] k k32 by simp
  moreover have "b mod 64 = j" using block_mod [of b 2 64 j] j j64 by simp
  ultimately have "k * 64 + j = 252" using assms(5) by simp
  with k32 j64 have "k = 3 \<and> j = 60" by (rule small_two)
  with k j show ?thesis by simp
qed

lemma three_byte_ne:
  fixes a b x :: nat
  assumes "224 \<le> a" "a < 240" "(if a = 224 then 160 else 128) \<le> b" "b \<le> 191"
  shows "a mod 16 * 4096 + b mod 64 * 64 + x \<noteq> 252"
proof -
  have lo: "128 \<le> b" using assms(3) by (simp split: if_splits)
  obtain k where k: "a = 224 + k" using assms(1) byte_block [of 224 a] by auto
  obtain j where j: "b = 128 + j" using lo byte_block [of 128 b] by auto
  from k assms(2) have k16: "k < 16" by simp
  from j assms(4) have j64: "j < 64" by simp
  have am: "a mod 16 = k" using block_mod [of a 14 16 k] k k16 by simp
  have bm: "b mod 64 = j" using block_mod [of b 2 64 j] j j64 by simp
  show ?thesis
  proof (cases "k = 0")
    case True
    with k assms(3) j have "32 \<le> j" by simp
    then have "2048 \<le> j * 64" by simp
    then show ?thesis unfolding am bm by linarith
  next
    case False
    then have "1 \<le> k" by simp
    then have "4096 \<le> k * 4096" by simp
    then show ?thesis unfolding am bm by linarith
  qed
qed

lemma four_byte_ne:
  fixes a b x y :: nat
  assumes "240 \<le> a" "a \<le> 244" "(if a = 240 then 144 else 128) \<le> b" "b \<le> 191"
  shows "a mod 8 * 262144 + b mod 64 * 4096 + x + y \<noteq> 252"
proof -
  have lo: "128 \<le> b" using assms(3) by (simp split: if_splits)
  obtain k where k: "a = 240 + k" using assms(1) byte_block [of 240 a] by auto
  obtain j where j: "b = 128 + j" using lo byte_block [of 128 b] by auto
  from k assms(2) have k8: "k < 8" by simp
  from j assms(4) have j64: "j < 64" by simp
  have am: "a mod 8 = k" using block_mod [of a 30 8 k] k k8 by simp
  have bm: "b mod 64 = j" using block_mod [of b 2 64 j] j j64 by simp
  show ?thesis
  proof (cases "k = 0")
    case True
    with k assms(3) j have "16 \<le> j" by simp
    then have "65536 \<le> j * 4096" by simp
    then show ?thesis unfolding am bm by linarith
  next
    case False
    then have "1 \<le> k" by simp
    then have "262144 \<le> k * 262144" by simp
    then show ?thesis unfolding am bm by linarith
  qed
qed

lemma DecodeRuneInString_width:
  "1 \<le> snd (DecodeRuneInString (c # s))"
  by (simp add: Let_def)

text \<open>The shape of a decoding result, by the class of the first byte.\<close>

lemma Decode_ascii:
  "(of_char c :: nat) < 128 \<Longrightarrow> DecodeRuneInString (c # cs) = (of_char c, 1)"
  by simp

lemma Decode_invalid_lead:
  "128 \<le> (of_char c :: nat) \<Longrightarrow> (of_char c :: nat) < 194 \<or> 244 < (of_char c :: nat) \<Longrightarrow>
   DecodeRuneInString (c # cs) = (RuneError, 1)"
  by (auto simp: Let_def)

lemma Decode_two:
  assumes "194 \<le> (of_char c :: nat)" "(of_char c :: nat) < 224"
  shows "DecodeRuneInString (c # cs) =
    (case cs of [] \<Rightarrow> (RuneError, 1)
     | b # t \<Rightarrow> if (of_char b :: nat) < 128 \<or> 191 < (of_char b :: nat) then (RuneError, 1)
                else (of_char c mod 32 * 64 + of_char b mod 64, 2))"
  using assms by (cases cs) (simp_all add: Let_def)

lemma Decode_three:
  assumes "224 \<le> (of_char c :: nat)" "(of_char c :: nat) < 240"
  shows "DecodeRuneInString (c # cs) =
    (case cs of
       b1 # b2 # t \<Rightarrow>
         if (of_char b1 :: nat) < (if (of_char c :: nat) = 224 then 160 else 128) \<or>
            (if (of_char c :: nat) = 237 then 159 else 191) < (of_char b1 :: nat) then (RuneError, 1)
         else if (of_char b2 :: nat) < 128 \<or> 191 < (of_char b2 :: nat) then (RuneError, 1)
         else (of_char c mod 16 * 4096 + of_char b1 mod 64 * 64 + of_char b2 mod 64, 3)
     | _ \<Rightarrow> (RuneError, 1))"
  using assms by (cases cs rule: list4_cases) (simp_all add: Let_def)

lemma Decode_four:
  assumes "240 \<le> (of_char c :: nat)" "(of_char c :: nat) \<le> 244"
  shows "DecodeRuneInString (c # cs) =
    (case cs of
       b1 # b2 # b3 # t \<Rightarrow>
         if (of_char b1 :: nat) < (if (of_char c :: nat) = 240 then 144 else 128) \<or>
            (if (of_char c :: nat) = 244 then 143 else 191) < (of_char b1 :: nat) then (RuneError, 1)
         else if (of_char b2 :: nat) < 128 \<or> 191 < (of_char b2 :: nat) then (RuneError, 1)
         else if (of_char b3 :: nat) < 128 \<or> 191 < (of_char b3 :: nat) then (RuneError, 1)
         else (of_char c mod 8 * 262144 + of_char b1 mod 64 * 4096 + of_char b2 mod 64 * 64
               + of_char b3 mod 64, 4)
     | _ \<Rightarrow> (RuneError, 1))"
  using assms by (cases cs rule: list4_cases) (simp_all add: Let_def)


declare DecodeRuneInString.simps [simp del]

lemma Decode_three_ne:
  assumes "224 \<le> (of_char c :: nat)" "(of_char c :: nat) < 240"
  shows "fst (DecodeRuneInString (c # cs)) \<noteq> 252"
proof (cases cs rule: list4_cases)
  case 1
  then show ?thesis by (simp add: Decode_three [OF assms] RuneError_def)
next
  case (2 b1)
  then show ?thesis by (simp add: Decode_three [OF assms] RuneError_def)
next
  case (3 b1 b2)
  then show ?thesis
    using three_byte_ne [OF assms, of "of_char b1" "of_char b2 mod 64"]
    by (simp add: Decode_three [OF assms] RuneError_def)
next
  case (4 b1 b2 b3 t)
  then show ?thesis
    using three_byte_ne [OF assms, of "of_char b1" "of_char b2 mod 64"]
    by (simp add: Decode_three [OF assms] RuneError_def)
qed

lemma Decode_four_ne:
  assumes "240 \<le> (of_char c :: nat)" "(of_char c :: nat) \<le> 244"
  shows "fst (DecodeRuneInString (c # cs)) \<noteq> 252"
proof (cases cs rule: list4_cases)
  case 1
  then show ?thesis by (simp add: Decode_four [OF assms] RuneError_def)
next
  case (2 b1)
  then show ?thesis by (simp add: Decode_four [OF assms] RuneError_def)
next
  case (3 b1 b2)
  then show ?thesis by (simp add: Decode_four [OF assms] RuneError_def)
next
  case (4 b1 b2 b3 t)
  then show ?thesis
    using four_byte_ne [OF assms, of "of_char b1" "of_char b2 mod 64 * 64" "of_char b3 mod 64"]
    by (simp add: Decode_four [OF assms] RuneError_def)
qed

lemma char_eq_by_code:
  "(of_char c :: nat) = of_char d \<Longrightarrow> c = d"
  by (simp only: of_char_eq_iff)

lemma Decode_u_uml:
  assumes "fst (DecodeRuneInString (c # cs)) = 0xFC"
  shows "HasPrefix (c # cs) u_uml"
proof -
  let ?a = "of_char c :: nat"
  have a256: "?a < 256" by simp
  consider "?a < 128" | "128 \<le> ?a" "?a < 194 \<or> 244 < ?a" | "194 \<le> ?a" "?a < 224"
    | "224 \<le> ?a" "?a < 240" | "240 \<le> ?a" "?a \<le> 244"
    by linarith
  then show ?thesis
  proof cases
    case 1
    with assms show ?thesis by (simp add: Decode_ascii)
  next
    case 2
    with assms show ?thesis by (simp add: Decode_invalid_lead RuneError_def)
  next
    case 3
    show ?thesis
    proof (cases cs)
      case Nil
      with assms 3 show ?thesis by (simp add: Decode_two RuneError_def)
    next
      case (Cons b t)
      let ?b = "of_char b :: nat"
      have ok: "\<not> (?b < 128 \<or> 191 < ?b)"
        using assms 3 Cons by (auto simp: Decode_two RuneError_def)
      then have val: "?a mod 32 * 64 + ?b mod 64 = 252"
        using assms 3 Cons by (simp add: Decode_two)
      from ok have "128 \<le> ?b" "?b \<le> 191" by simp_all
      with 3 val have "?a = 195 \<and> ?b = 188" by (intro two_byte_FC)
      then have ca: "?a = of_char (CHR 0xC3)" and cb: "?b = of_char (CHR 0xBC)" by simp_all
      from ca have "c = CHR 0xC3" by (rule char_eq_by_code)
      moreover from cb have "b = CHR 0xBC" by (rule char_eq_by_code)
      ultimately show ?thesis using Cons by (simp add: HasPrefix_u_uml)
    qed
  next
    case 4
    then have "fst (DecodeRuneInString (c # cs)) \<noteq> 252" by (rule Decode_three_ne)
    with assms show ?thesis by simp
  next
    case 5
    then have "fst (DecodeRuneInString (c # cs)) \<noteq> 252" by (rule Decode_four_ne)
    with assms show ?thesis by simp
  qed
qed


text \<open>
  Decoding looks at the bytes after the first only as far as they are continuation
  bytes.
\<close>

lemma Decode_takeWhile:
  "DecodeRuneInString (c # cs) = DecodeRuneInString (c # takeWhile cont cs)"
proof (cases cs rule: list4_cases)
  case 1
  then show ?thesis by simp
next
  case (2 b1)
  then show ?thesis by (simp add: DecodeRuneInString.simps Let_def cont_def)
next
  case (3 b1 b2)
  then show ?thesis by (simp add: DecodeRuneInString.simps Let_def cont_def)
next
  case (4 b1 b2 b3 t)
  then show ?thesis by (simp add: DecodeRuneInString.simps Let_def cont_def)
qed

lemma Decode_width_le: "snd (DecodeRuneInString s) \<le> length s"
proof (cases s)
  case Nil
  then show ?thesis by (simp add: DecodeRuneInString.simps)
next
  case (Cons c cs)
  let ?a = "of_char c :: nat"
  consider "?a < 128" | "128 \<le> ?a" "?a < 194 \<or> 244 < ?a" | "194 \<le> ?a" "?a < 224"
    | "224 \<le> ?a" "?a < 240" | "240 \<le> ?a" "?a \<le> 244"
    by linarith
  then show ?thesis
  proof cases
    case 1
    with Cons show ?thesis by (simp add: Decode_ascii)
  next
    case 2
    with Cons show ?thesis by (simp add: Decode_invalid_lead)
  next
    case 3
    with Cons show ?thesis by (simp add: Decode_two split: list.splits)
  next
    case 4
    with Cons show ?thesis by (simp add: Decode_three split: list.splits)
  next
    case 5
    with Cons show ?thesis by (simp add: Decode_four split: list.splits)
  qed
qed

lemma Decode_width_cont:
  "snd (DecodeRuneInString (c # cs)) \<le> Suc (length (takeWhile cont cs))"
  using Decode_width_le [of "c # takeWhile cont cs"] by (simp add: Decode_takeWhile [symmetric])

lemma cont_not_C3: "cont b \<Longrightarrow> b \<noteq> CHR 0xC3"
  by (auto simp: cont_def)

lemma ReplaceAll_u_uml_Cons:
  "ReplaceAll (c # cs) u_uml ''v'' =
     (if HasPrefix (c # cs) u_uml then CHR ''v'' # ReplaceAll (tl cs) u_uml ''v''
      else c # ReplaceAll cs u_uml ''v'')"
  by (cases cs) (auto simp: u_uml_def HasPrefix_def)

lemma takeWhile_cont_ReplaceAll:
  "takeWhile cont (ReplaceAll cs u_uml ''v'') = takeWhile cont cs"
proof (induction cs)
  case Nil
  then show ?case by simp
next
  case (Cons b t)
  show ?case
  proof (cases "HasPrefix (b # t) u_uml")
    case True
    then have "b = CHR 0xC3" by (simp add: HasPrefix_u_uml)
    then have "\<not> cont b" using cont_not_C3 by blast
    moreover have "\<not> cont CHR ''v''" by (simp add: cont_def)
    ultimately show ?thesis using True by (simp add: ReplaceAll_u_uml_Cons del: ReplaceAll.simps)
  next
    case False
    with Cons show ?thesis by (simp add: ReplaceAll_u_uml_Cons del: ReplaceAll.simps)
  qed
qed

lemma drop_ReplaceAll:
  "k \<le> length (takeWhile cont cs) \<Longrightarrow>
   drop k (ReplaceAll cs u_uml ''v'') = ReplaceAll (drop k cs) u_uml ''v''"
proof (induction cs arbitrary: k)
  case Nil
  then show ?case by simp
next
  case (Cons b t)
  show ?case
  proof (cases k)
    case 0
    then show ?thesis by simp
  next
    case (Suc j)
    with Cons.prems have cb: "cont b" and j: "j \<le> length (takeWhile cont t)"
      by (auto split: if_splits)
    from cb have "\<not> HasPrefix (b # t) u_uml"
      using cont_not_C3 by (simp add: HasPrefix_u_uml)
    with Suc j Cons.IH show ?thesis by (simp add: ReplaceAll_u_uml_Cons del: ReplaceAll.simps)
  qed
qed

lemma Decode_same_after_ReplaceAll:
  "DecodeRuneInString (c # ReplaceAll cs u_uml ''v'') = DecodeRuneInString (c # cs)"
proof -
  have "DecodeRuneInString (c # ReplaceAll cs u_uml ''v'') =
        DecodeRuneInString (c # takeWhile cont (ReplaceAll cs u_uml ''v''))"
    by (rule Decode_takeWhile)
  also have "\<dots> = DecodeRuneInString (c # takeWhile cont cs)"
    by (simp only: takeWhile_cont_ReplaceAll)
  also have "\<dots> = DecodeRuneInString (c # cs)"
    by (rule Decode_takeWhile [symmetric])
  finally show ?thesis .
qed

lemma runes_ReplaceAll:
  "runes (ReplaceAll s u_uml ''v'') = map v_for_u_uml (runes s)"
proof (induction s rule: runes.induct)
  case 1
  then show ?case by simp
next
  case (2 c cs)
  let ?w = "snd (DecodeRuneInString (c # cs))"
  show ?case
  proof (cases "HasPrefix (c # cs) u_uml")
    case True
    then obtain t where c: "c = CHR 0xC3" and cs: "cs = CHR 0xBC # t"
      by (auto simp: HasPrefix_u_uml)
    have d: "DecodeRuneInString (c # cs) = (0xFC, 2)"
      by (simp add: c cs DecodeRuneInString.simps)
    have dv: "DecodeRuneInString (CHR ''v'' # ReplaceAll t u_uml ''v'') = (0x76, 1)"
      by (simp add: DecodeRuneInString.simps)
    have ih: "runes (ReplaceAll t u_uml ''v'') = map v_for_u_uml (runes t)"
      using "2.IH" d by (simp add: cs)
    have "runes (ReplaceAll (c # cs) u_uml ''v'') = runes (CHR ''v'' # ReplaceAll t u_uml ''v'')"
      using True by (simp add: ReplaceAll_u_uml_Cons cs del: ReplaceAll.simps)
    also have "\<dots> = 0x76 # runes (ReplaceAll t u_uml ''v'')"
      by (simp add: dv)
    also have "\<dots> = 0x76 # map v_for_u_uml (runes t)"
      by (simp only: ih)
    also have "\<dots> = map v_for_u_uml (runes (c # cs))"
      using d by (simp add: cs v_for_u_uml_def)
    finally show ?thesis .
  next
    case False
    let ?Y = "ReplaceAll cs u_uml ''v''"
    have same: "DecodeRuneInString (c # ?Y) = DecodeRuneInString (c # cs)"
      by (rule Decode_same_after_ReplaceAll)
    have w1: "1 \<le> ?w" by (rule DecodeRuneInString_width)
    have "?w - 1 \<le> length (takeWhile cont cs)"
      using Decode_width_cont [of c cs] by simp
    then have "drop (?w - 1) ?Y = ReplaceAll (drop (?w - 1) cs) u_uml ''v''"
      by (rule drop_ReplaceAll)
    with w1 have dr: "drop ?w (c # ?Y) = ReplaceAll (drop ?w (c # cs)) u_uml ''v''"
      by (cases ?w) simp_all
    have ne: "fst (DecodeRuneInString (c # cs)) \<noteq> 0xFC"
      using False Decode_u_uml by blast
    have "runes (ReplaceAll (c # cs) u_uml ''v'') = runes (c # ?Y)"
      using False by (simp add: ReplaceAll_u_uml_Cons del: ReplaceAll.simps)
    also have "\<dots> = fst (DecodeRuneInString (c # cs)) # runes (drop ?w (c # ?Y))"
      by (simp add: same)
    also have "\<dots> = fst (DecodeRuneInString (c # cs)) # map v_for_u_uml (runes (drop ?w (c # cs)))"
      using "2.IH" dr by simp
    also have "\<dots> = map v_for_u_uml (runes (c # cs))"
      using ne by (simp add: v_for_u_uml_def)
    finally show ?thesis .
  qed
qed

section \<open>The claims\<close>

text \<open>
  C1. The specification asks that a syllable starting with \<^verbatim>\<open>yu\<close> gets the initial
  \<^verbatim>\<open>yu\<close>, the test for \<^verbatim>\<open>yu\<close> running before the one for \<^verbatim>\<open>y\<close>. In
  \<^verbatim>\<open>extractInitialFinal\<close> the test for the prefix \<^verbatim>\<open>y\<close> comes first and returns, so
  the branch for \<^verbatim>\<open>yu\<close> is never reached: every syllable whose lower-cased, toneless
  form starts with \<^verbatim>\<open>yu\<close> gets the initial \<^verbatim>\<open>y\<close>. For \<^verbatim>\<open>yu\<close>, \<^verbatim>\<open>yue\<close> and \<^verbatim>\<open>yuan\<close>
  the letter u stays in the residual.
\<close>

theorem C1_yu_classified_under_y:
  "(\<forall>s. HasPrefix (strings_ToLower tbl (snd (extractTone s))) ''yu'' \<longrightarrow>
        Initial (Parse tbl s) = ''y'') \<and>
   Parse tbl ''yu'' = \<lparr>Full = ''yu'', Initial = ''y'', Final = '''', Tone = 5\<rparr> \<and>
   Parse tbl ''yue'' = \<lparr>Full = ''yue'', Initial = ''y'', Final = ''ue'', Tone = 5\<rparr> \<and>
   Parse tbl ''yuan'' = \<lparr>Full = ''yuan'', Initial = ''y'', Final = ''uan'', Tone = 5\<rparr>"
proof -
  have g: "Initial (Parse tbl s) = ''y''"
    if "HasPrefix (strings_ToLower tbl (snd (extractTone s))) ''yu''" for s
  proof -
    have "Initial (Parse tbl s) = fst (extractInitialFinal tbl (snd (extractTone s)))"
      by (simp add: Parse_def split: prod.splits)
    with that show ?thesis by (simp add: yu_prefix_initial)
  qed
  have e: "Parse tbl ''yu'' = \<lparr>Full = ''yu'', Initial = ''y'', Final = '''', Tone = 5\<rparr> \<and>
   Parse tbl ''yue'' = \<lparr>Full = ''yue'', Initial = ''y'', Final = ''ue'', Tone = 5\<rparr> \<and>
   Parse tbl ''yuan'' = \<lparr>Full = ''yuan'', Initial = ''y'', Final = ''uan'', Tone = 5\<rparr>"
    by code_simp
  from g e show ?thesis by blast
qed

theorem C1_yu_classified_under_y_witness:
  "HasPrefix (strings_ToLower id (snd (extractTone ''yun''))) ''yu'' \<and>
   Initial (Parse id ''yun'') = ''y''"
proof -
  have h: "HasPrefix (strings_ToLower id (snd (extractTone ''yun''))) ''yu''"
    by code_simp
  with C1_yu_classified_under_y [of id] have "Initial (Parse id ''yun'') = ''y''"
    by blast
  with h show ?thesis by (rule conjI)
qed

text \<open>
  C2, as the code has it. \<^verbatim>\<open>hmmFinals\<close> is a list of 13 strings: four of three letters
  (\<^verbatim>\<open>ong\<close>, \<^verbatim>\<open>ang\<close>, \<^verbatim>\<open>eng\<close>, \<^verbatim>\<open>ing\<close>), six of two letters and three of one letter.
  \<^verbatim>\<open>matchFinal\<close> maps every residual that ends in \<^verbatim>\<open>ing\<close> and is not \<^verbatim>\<open>ing\<close> itself
  to \<^verbatim>\<open>eng\<close>.
\<close>

theorem C2_finals_and_ing_suffix:
  "length hmmFinals = 13 \<and>
   filter (\<lambda>f. length f = 3) hmmFinals = [''ong'', ''ang'', ''eng'', ''ing''] \<and>
   filter (\<lambda>f. length f = 2) hmmFinals = [''ai'', ''ei'', ''ao'', ''ou'', ''an'', ''en''] \<and>
   filter (\<lambda>f. length f = 1) hmmFinals = [''a'', ''o'', ''e''] \<and>
   (\<forall>rest. HasSuffix rest ''ing'' \<and> rest \<noteq> ''ing'' \<longrightarrow> matchFinal rest hmmFinals = ''eng'')"
proof -
  have cnt: "length hmmFinals = 13" by (simp add: hmmFinals_def)
  have f3: "filter (\<lambda>f. length f = 3) hmmFinals = [''ong'', ''ang'', ''eng'', ''ing'']"
    by (simp add: hmmFinals_def)
  have f2: "filter (\<lambda>f. length f = 2) hmmFinals = [''ai'', ''ei'', ''ao'', ''ou'', ''an'', ''en'']"
    by (simp add: hmmFinals_def)
  have f1: "filter (\<lambda>f. length f = 1) hmmFinals = [''a'', ''o'', ''e'']"
    by (simp add: hmmFinals_def)
  have ing: "matchFinal rest hmmFinals = ''eng''"
    if "HasSuffix rest ''ing'' \<and> rest \<noteq> ''ing''" for rest
    using that ing_not_final [of rest] by (simp add: matchFinal_def)
  from cnt f3 f2 f1 ing show ?thesis by blast
qed

theorem C2_finals_and_ing_suffix_witness:
  "HasSuffix ''xing'' ''ing'' \<and> ''xing'' \<noteq> ''ing'' \<and> matchFinal ''xing'' hmmFinals = ''eng''"
proof -
  have h: "HasSuffix ''xing'' ''ing'' \<and> ''xing'' \<noteq> ''ing''" by (simp add: HasSuffix_def)
  with C2_finals_and_ing_suffix show ?thesis by blast
qed

text \<open>
  C2 as the specification states it fails twice: the list has four finals of three
  letters, not three, and the residual \<^verbatim>\<open>ing\<close> itself is found in the list by the
  exact comparison and returned as \<^verbatim>\<open>ing\<close>, before the suffix rule is tried.
\<close>

theorem C2_three_letter_finals_counterexample:
  "length (filter (\<lambda>f. length f = 3) hmmFinals) = 4 \<and> matchFinal ''ing'' hmmFinals = ''ing''"
  by code_simp

text \<open>
  C3. \<^verbatim>\<open>Parse\<close> of n followed by u-umlaut with caron (U+01DA, the bytes C7 9A) gives
  the initial n + u-umlaut, the empty final and tone 3. \<^verbatim>\<open>Parse\<close> of the ASCII spelling
  \<^verbatim>\<open>nv\<close> gives the same initial and final, but the tone is 5: the input carries no
  tone mark.
\<close>

theorem C3_nv_umlaut:
  "Parse tbl [CHR ''n'', CHR 0xC7, CHR 0x9A] =
     \<lparr>Full = [CHR ''n'', CHR 0xC7, CHR 0x9A], Initial = ''n'' @ u_uml, Final = '''', Tone = 3\<rparr> \<and>
   Parse tbl ''nv'' = \<lparr>Full = ''nv'', Initial = ''n'' @ u_uml, Final = '''', Tone = 5\<rparr>"
  by code_simp

text \<open>C3 as the specification states it fails: the tone of \<^verbatim>\<open>nv\<close> is 5, not 3.\<close>

theorem C3_nv_tone_counterexample:
  "Tone (Parse id ''nv'') = 5 \<and> Tone (Parse id ''nv'') \<noteq> 3"
  by code_simp

text \<open>
  C4. \<^verbatim>\<open>extractTone\<close> goes through the code points of its input from left to right;
  it writes the base vowel for every key of the tone-mark table and every other code
  point as it is, and returns the tone of the last tone mark, or 5 when the input has
  none.
\<close>

theorem C4_extractTone_scan:
  "extractTone s =
     (if marks_of (runes s) = [] then 5 else last (marks_of (runes s)),
      concat (map (\<lambda>r. EncodeRune (base_of r)) (runes s)))"
proof (cases "marks_of (runes s) = []")
  case True
  then show ?thesis
    by (simp add: extractTone_def extractTone_loop_eq ToneUnknown_def Tone5_def)
next
  case False
  then have "last (marks_of (runes s)) \<in> {1, 2, 3, 4}"
    by (rule last_mark_range)
  then have "last (marks_of (runes s)) \<noteq> 0"
    by auto
  with False show ?thesis
    by (simp add: extractTone_def extractTone_loop_eq ToneUnknown_def Tone5_def)
qed

text \<open>
  C5. For every consonant of the set zh, ch, sh, r, z, c, s and every remainder that
  begins with i, \<^verbatim>\<open>extractWithInitial\<close> returns the consonant alone as the initial and
  hands the whole remainder to \<^verbatim>\<open>matchFinal\<close>: the rule for consonant + i does not
  fire. \<^verbatim>\<open>Parse\<close> of s, h, i-grave (U+00EC, the bytes C3 AC) gives the initial
  \<^verbatim>\<open>sh\<close>, the empty final and tone 4.
\<close>

theorem C5_fake_i:
  "(\<forall>c \<in> {''zh'', ''ch'', ''sh'', ''r'', ''z'', ''c'', ''s''}. \<forall>r fs.
      extractWithInitial c (CHR ''i'' # r) fs = (c, matchFinal (CHR ''i'' # r) fs)) \<and>
   Parse tbl [CHR ''s'', CHR ''h'', CHR 0xC3, CHR 0xAC] =
     \<lparr>Full = [CHR ''s'', CHR ''h'', CHR 0xC3, CHR 0xAC], Initial = ''sh'', Final = '''', Tone = 4\<rparr>"
proof -
  have a: "extractWithInitial c (CHR ''i'' # r) fs = (c, matchFinal (CHR ''i'' # r) fs)"
    if "c \<in> {''zh'', ''ch'', ''sh'', ''r'', ''z'', ''c'', ''s''}" for c r fs
    using fakeI_members [OF that] by (simp add: extractWithInitial_def HasPrefix_i)
  have b: "Parse tbl [CHR ''s'', CHR ''h'', CHR 0xC3, CHR 0xAC] =
     \<lparr>Full = [CHR ''s'', CHR ''h'', CHR 0xC3, CHR 0xAC], Initial = ''sh'', Final = '''', Tone = 4\<rparr>"
    by code_simp
  from a b show ?thesis by blast
qed

theorem C5_fake_i_witness:
  "''zh'' \<in> {''zh'', ''ch'', ''sh'', ''r'', ''z'', ''c'', ''s''} \<and>
   extractWithInitial ''zh'' ''i'' hmmFinals = (''zh'', '''')"
proof -
  have m: "matchFinal ''i'' hmmFinals = ''''" by code_simp
  have "extractWithInitial ''zh'' ''i'' hmmFinals = (''zh'', matchFinal ''i'' hmmFinals)"
    using C5_fake_i [of id] by blast
  with m show ?thesis by simp
qed

text \<open>
  C6. \<^verbatim>\<open>matchFinal\<close> maps the residual \<^verbatim>\<open>n\<close> to \<^verbatim>\<open>en\<close> and the residual \<^verbatim>\<open>ng\<close> to
  \<^verbatim>\<open>eng\<close>; \<^verbatim>\<open>Parse\<close> of l, i-acute (U+00ED, the bytes C3 AD), n gives the initial
  \<^verbatim>\<open>li\<close>, the final \<^verbatim>\<open>en\<close> and tone 2.
\<close>

theorem C6_bare_nasal:
  "matchFinal ''n'' hmmFinals = ''en'' \<and> matchFinal ''ng'' hmmFinals = ''eng'' \<and>
   Parse tbl [CHR ''l'', CHR 0xC3, CHR 0xAD, CHR ''n''] =
     \<lparr>Full = [CHR ''l'', CHR 0xC3, CHR 0xAD, CHR ''n''], Initial = ''li'', Final = ''en'', Tone = 2\<rparr>"
  by code_simp

text \<open>
  C7. \<^verbatim>\<open>GetActorID\<close> of the empty string is \<^verbatim>\<open>null\<close>; of a non-empty initial it is
  the initial with every occurrence of u-umlaut replaced by v: on the code points of the
  string, each U+00FC becomes U+0076 and every other code point stays. \<^verbatim>\<open>GetSetID\<close>
  of the empty string is \<^verbatim>\<open>null\<close> and of a non-empty final the final itself. Both are
  total functions of the model, with no error result.
\<close>

theorem C7_identifier_mapper:
  "GetActorID '''' = ''null'' \<and>
   (\<forall>initial. initial \<noteq> '''' \<longrightarrow>
      GetActorID initial = ReplaceAll initial u_uml ''v'' \<and>
      runes (GetActorID initial) = map v_for_u_uml (runes initial)) \<and>
   GetSetID '''' = ''null'' \<and>
   (\<forall>final. final \<noteq> '''' \<longrightarrow> GetSetID final = final)"
  by (simp add: GetActorID_def GetSetID_def runes_ReplaceAll)

theorem C7_identifier_mapper_witness:
  "''n'' @ u_uml \<noteq> '''' \<and> GetActorID (''n'' @ u_uml) = ''nv'' \<and>
   runes (GetActorID (''n'' @ u_uml)) = [0x6E, 0x76] \<and>
   ''ao'' \<noteq> '''' \<and> GetSetID ''ao'' = ''ao''"
proof -
  have ne: "''n'' @ u_uml \<noteq> ''''" by simp
  have ao: "''ao'' \<noteq> ''''" by simp
  have r: "ReplaceAll (''n'' @ u_uml) u_uml ''v'' = ''nv''" by code_simp
  have m: "map v_for_u_uml (runes (''n'' @ u_uml)) = [0x6E, 0x76]" by code_simp
  from C7_identifier_mapper ne
  have g1: "GetActorID (''n'' @ u_uml) = ReplaceAll (''n'' @ u_uml) u_uml ''v''"
    and g2: "runes (GetActorID (''n'' @ u_uml)) = map v_for_u_uml (runes (''n'' @ u_uml))"
    by blast+
  from C7_identifier_mapper ao have g3: "GetSetID ''ao'' = ''ao''"
    by blast
  from g1 r have a1: "GetActorID (''n'' @ u_uml) = ''nv''" by (rule trans)
  from g2 m have a2: "runes (GetActorID (''n'' @ u_uml)) = [0x6E, 0x76]" by (rule trans)
  from ne a1 a2 ao g3 show ?thesis by (intro conjI)
qed

text \<open>
  C8. For every input string, the tone of \<^verbatim>\<open>Parse(s)\<close> is one of 1, 2, 3, 4, 5, and so
  never \<^verbatim>\<open>ToneUnknown\<close> (0). The model of \<^verbatim>\<open>Parse\<close> is a total function with no error
  result: the only indexing of the source, \<^verbatim>\<open>pinyin[0]\<close> and \<^verbatim>\<open>pinyin[1:]\<close>, is under
  the test \<^verbatim>\<open>len(pinyin) > 0\<close>.
\<close>

theorem C8_tone_in_range:
  "Tone (Parse tbl s) \<in> {1, 2, 3, 4, 5} \<and> Tone (Parse tbl s) \<noteq> ToneUnknown"
proof -
  have "Tone (Parse tbl s) = fst (extractTone s)"
    by (simp add: Parse_def split: prod.splits)
  with extractTone_range [of s] show ?thesis
    by (auto simp: ToneUnknown_def)
qed

text \<open>
  C9. For every input \<open>s\<close>, the field \<^verbatim>\<open>Full\<close> of \<^verbatim>\<open>Parse(s)\<close> is \<open>s\<close> itself, whatever
  the tone extraction and the lower-casing do to the copy the other fields are computed
  from.
\<close>

theorem C9_full_unmodified:
  "Full (Parse tbl s) = s"
  by (simp add: Parse_def split: prod.splits)

text \<open>
  C10. \<^verbatim>\<open>Parse\<close> of the empty string returns the empty \<^verbatim>\<open>Full\<close>, \<^verbatim>\<open>Initial\<close> and
  \<^verbatim>\<open>Final\<close> and tone 5.
\<close>

theorem C10_empty_input:
  "Parse tbl '''' = \<lparr>Full = '''', Initial = '''', Final = '''', Tone = 5\<rparr>"
  by code_simp

end
